theory Spec2Isabelle
  imports Complex_Main "HOL-Library.Multiset"
begin

section \<open>Palantir core: a shallow embedding of \<^verbatim>\<open>src/palantir/core.py\<close>\<close>

text \<open>
  Conventions of the embedding.
  \<^item> Numbers that the source holds in IEEE doubles are exact rationals (\<open>rat\<close>) here, so
    every statement below is about the algorithm in exact arithmetic.
  \<^item> A pandas label index is a list of labels; rows are addressed by position.
  \<^item> A Python exception is a value of \<open>py_error\<close>; a function that can raise returns
    \<open>py_error + 'a\<close>, with \<open>Inl\<close> for the exception.
  \<^item> Calls into numpy, scipy, pandas and scikit-learn whose result is not computed by this
    file (random draws, matrix inversion, Pearson correlation, shortest paths) are
    parameters of the functions that use them.
\<close>

datatype py_error = ZeroDivisionError | ValueError | IndexError | LinAlgError | KeyError

subsection \<open>Label-indexed data\<close>

text \<open>
  A data frame: the row labels (\<^verbatim>\<open>data.index\<close>) and one value list per column
  (\<^verbatim>\<open>data[ind]\<close>), so \<^verbatim>\<open>data.shape\<close> is
  \<open>(length (row_labels d), length (col_values d))\<close>.
\<close>

record 'l data_frame =
  row_labels :: "'l list"
  col_values :: "rat list list"

definition well_shaped :: "'l data_frame \<Rightarrow> bool" where
  "well_shaped d = list_all (\<lambda>vec. length vec = length (row_labels d)) (col_values d)"

text \<open>\<^verbatim>\<open>Index.unique()\<close>: the first occurrence of every label, in order.\<close>

fun unique :: "'a list \<Rightarrow> 'a list" where
  "unique [] = []"
| "unique (x # xs) = x # unique (filter (\<lambda>y. y \<noteq> x) xs)"

subsection \<open>Max-min sampling of waypoints (\<^verbatim>\<open>_max_min_sampling\<close>)\<close>

text \<open>\<^verbatim>\<open>int(num_waypoints / data.shape[1])\<close>: true division, truncated towards zero.\<close>

definition trunc_div :: "int \<Rightarrow> int \<Rightarrow> int" where
  "trunc_div a b = (if 0 \<le> a then a div b else - ((- a) div b))"

text \<open>\<^verbatim>\<open>abs(vec - data[ind].values[p])\<close>\<close>

definition abs_diff :: "rat list \<Rightarrow> nat \<Rightarrow> rat list" where
  "abs_diff vec p = map (\<lambda>v. \<bar>v - vec ! p\<bar>) vec"

text \<open>
  \<^verbatim>\<open>dists[:, 0:k].min(axis=1)\<close>, where \<open>dists\<close> holds the \<open>k\<close> columns filled so far
  (\<open>k \<ge> 1\<close>), each of \<open>N\<close> entries.
\<close>

definition min_dists :: "rat list list \<Rightarrow> nat \<Rightarrow> rat list" where
  "min_dists dists N = map (\<lambda>i. Min (set (map (\<lambda>col. col ! i) dists))) [0..<N]"

text \<open>\<^verbatim>\<open>np.where(min_dists == min_dists.max())[0][0]\<close>: the first position of the maximum.\<close>

definition first_argmax :: "rat list \<Rightarrow> nat" where
  "first_argmax md = length (takeWhile (\<lambda>v. v \<noteq> Max (set md)) md)"

text \<open>The loop \<^verbatim>\<open>for k in range(1, no_iterations)\<close>, with the number of passes left.\<close>

fun maxmin_loop :: "rat list \<Rightarrow> nat \<Rightarrow> rat list list \<Rightarrow> nat list \<Rightarrow> nat list" where
  "maxmin_loop vec 0 dists iter_set = iter_set"
| "maxmin_loop vec (Suc m) dists iter_set =
     (let new_wp = first_argmax (min_dists dists (length vec))
      in maxmin_loop vec m (dists @ [abs_diff vec new_wp]) (iter_set @ [new_wp]))"

text \<open>
  The body of \<^verbatim>\<open>for ind in data.columns\<close> for one column \<open>vec\<close>. The draw
  \<^verbatim>\<open>random.sample(range(N), 1)\<close> is \<open>[r mod N]\<close> for the random number \<open>r\<close> handed in,
  and raises ValueError on an empty range. \<^verbatim>\<open>np.zeros([N, no_iterations])\<close> raises
  ValueError on a negative dimension, and \<^verbatim>\<open>dists[:, 0] = ...\<close> raises IndexError when
  the array has no column.
\<close>

definition sample_column :: "rat list \<Rightarrow> int \<Rightarrow> nat \<Rightarrow> py_error + nat list" where
  "sample_column vec no_iterations r =
     (let N = length vec in
      if N = 0 then Inl ValueError
      else if no_iterations < 0 then Inl ValueError
      else if no_iterations = 0 then Inl IndexError
      else Inr (maxmin_loop vec (nat no_iterations - 1) [abs_diff vec (r mod N)] [r mod N]))"

text \<open>
  The loop over the columns; \<open>rnd c\<close> is the random number drawn for the column at
  position \<open>c\<close>. The first exception ends the loop.
\<close>

fun sample_columns :: "rat list list \<Rightarrow> int \<Rightarrow> (nat \<Rightarrow> nat) \<Rightarrow> nat \<Rightarrow> nat list
    \<Rightarrow> py_error + nat list" where
  "sample_columns [] no_iterations rnd c waypoint_set = Inr waypoint_set"
| "sample_columns (vec # cols) no_iterations rnd c waypoint_set =
     (case sample_column vec no_iterations (rnd c) of
        Inl e \<Rightarrow> Inl e
      | Inr iter_set \<Rightarrow> sample_columns cols no_iterations rnd (Suc c) (waypoint_set @ iter_set))"

definition max_min_sampling :: "'l data_frame \<Rightarrow> int \<Rightarrow> (nat \<Rightarrow> nat) \<Rightarrow> py_error + 'l list" where
  "max_min_sampling data num_waypoints rnd =
     (if length (col_values data) = 0 then Inl ZeroDivisionError
      else
        let no_iterations = trunc_div num_waypoints (int (length (col_values data)))
        in case sample_columns (col_values data) no_iterations rnd 0 [] of
             Inl e \<Rightarrow> Inl e
           | Inr waypoint_set \<Rightarrow> Inr (unique (map (\<lambda>p. row_labels data ! p) waypoint_set)))"

text \<open>A small frame of four cells and two components, used to evaluate the sampler.\<close>

definition demo_frame :: "string data_frame" where
  "demo_frame = \<lparr>row_labels = [''c0'', ''c1'', ''c2'', ''c3''],
                 col_values = [[0, 1/4, 1/2, 1], [1, 0, 1/2, 1/4]]\<rparr>"

subsection \<open>Properties of the sampler\<close>


lemma unique_set: "set (unique xs) = set xs"
  by (induction xs rule: unique.induct) auto

lemma unique_distinct: "distinct (unique xs)"
  by (induction xs rule: unique.induct) (auto simp: unique_set)

lemma unique_length: "length (unique xs) \<le> length xs"
proof (induction xs rule: unique.induct)
  case 1
  then show ?case by simp
next
  case (2 x xs)
  have "length (filter (\<lambda>y. y \<noteq> x) xs) \<le> length xs" by simp
  with 2 have "length (unique (filter (\<lambda>y. y \<noteq> x) xs)) \<le> length xs" by (rule le_trans)
  then show ?case by simp
qed

lemma first_argmax_less: "md \<noteq> [] \<Longrightarrow> first_argmax md < length md"
proof -
  assume "md \<noteq> []"
  then have "Max (set md) \<in> set md" by (intro Max_in) auto
  then have "dropWhile (\<lambda>v. v \<noteq> Max (set md)) md \<noteq> []"
    by (auto simp: dropWhile_eq_Nil_conv)
  moreover have "length md = length (takeWhile (\<lambda>v. v \<noteq> Max (set md)) md)
      + length (dropWhile (\<lambda>v. v \<noteq> Max (set md)) md)"
    by (metis length_append takeWhile_dropWhile_id)
  ultimately show ?thesis unfolding first_argmax_def by simp
qed

lemma maxmin_loop_length: "length (maxmin_loop vec m dists it) = length it + m"
  by (induction m arbitrary: dists it) (auto simp: Let_def)

lemma maxmin_loop_bound:
  "vec \<noteq> [] \<Longrightarrow> \<forall>p\<in>set it. p < length vec \<Longrightarrow> \<forall>p\<in>set (maxmin_loop vec m dists it). p < length vec"
proof (induction m arbitrary: dists it)
  case 0
  then show ?case by simp
next
  case (Suc m)
  have "min_dists dists (length vec) \<noteq> []" using Suc.prems(1) by (simp add: min_dists_def)
  then have "first_argmax (min_dists dists (length vec)) < length vec"
    using first_argmax_less[of "min_dists dists (length vec)"] by (simp add: min_dists_def)
  then have "\<forall>p\<in>set (it @ [first_argmax (min_dists dists (length vec))]). p < length vec"
    using Suc.prems(2) by auto
  from Suc.IH[OF Suc.prems(1) this] show ?case by (simp add: Let_def)
qed

lemma sample_column_Inr:
  assumes "sample_column vec n r = Inr it"
  shows "length it = nat n \<and> 0 < n \<and> (\<forall>p\<in>set it. p < length vec)"
proof -
  from assms have N: "vec \<noteq> []" and n: "0 < n"
    and it: "it = maxmin_loop vec (nat n - 1) [abs_diff vec (r mod length vec)] [r mod length vec]"
    by (auto simp: sample_column_def Let_def split: if_splits)
  have "\<forall>p\<in>set [r mod length vec]. p < length vec" using N by simp
  from maxmin_loop_bound[OF N this] have "\<forall>p\<in>set it. p < length vec" unfolding it .
  moreover have "length it = nat n" unfolding it maxmin_loop_length using n by simp
  ultimately show ?thesis using n by simp
qed

lemma sample_columns_Inr:
  "sample_columns cols n rnd c acc = Inr ws \<Longrightarrow> list_all (\<lambda>vec. length vec = N) cols
   \<Longrightarrow> \<forall>p\<in>set acc. p < N
   \<Longrightarrow> length ws = length acc + length cols * nat n \<and> (\<forall>p\<in>set ws. p < N)"
proof (induction cols arbitrary: c acc)
  case Nil
  then show ?case by simp
next
  case (Cons vec cols)
  from Cons.prems(1) obtain it where it: "sample_column vec n (rnd c) = Inr it"
    and rest: "sample_columns cols n rnd (Suc c) (acc @ it) = Inr ws"
    by (auto split: sum.splits)
  from sample_column_Inr[OF it] Cons.prems(2)
  have l: "length it = nat n" and b: "\<forall>p\<in>set it. p < N" by auto
  have "\<forall>p\<in>set (acc @ it). p < N" using b Cons.prems(3) by auto
  from Cons.IH[OF rest _ this] Cons.prems(2) l show ?case by auto
qed

lemma sample_column_total:
  "vec \<noteq> [] \<Longrightarrow> 0 < n \<Longrightarrow> \<exists>it. sample_column vec n r = Inr it"
  by (simp add: sample_column_def Let_def)

lemma sample_columns_total:
  "list_all (\<lambda>vec. vec \<noteq> []) cols \<Longrightarrow> 0 < n \<Longrightarrow> \<exists>ws. sample_columns cols n rnd c acc = Inr ws"
proof (induction cols arbitrary: c acc)
  case Nil
  then show ?case by simp
next
  case (Cons vec cols)
  then obtain it where "sample_column vec n (rnd c) = Inr it"
    using sample_column_total[of vec n "rnd c"] by auto
  with Cons show ?case by auto
qed

lemma trunc_div_bound: "0 < b \<Longrightarrow> b \<le> a \<Longrightarrow> 0 < trunc_div a b \<and> b * trunc_div a b \<le> a"
proof -
  assume b: "0 < b" and ab: "b \<le> a"
  then have "0 \<le> a" by simp
  then have t: "trunc_div a b = a div b" by (simp add: trunc_div_def)
  have "0 < a div b" using b ab by (simp add: pos_imp_zdiv_pos_iff)
  moreover have "b * (a div b) \<le> a" using b
    by (metis add.commute add_increasing2 mult_div_mod_eq order_refl pos_mod_sign)
  ultimately show ?thesis using t by simp
qed

lemma trunc_div_small: "0 < a \<Longrightarrow> a < b \<Longrightarrow> trunc_div a b = 0"
  by (simp add: trunc_div_def div_pos_pos_trivial)

text \<open>
  Claim C8. For every data frame and every integer \<open>num_waypoints\<close> that is at least the
  number of embedding columns, whatever the random draws: a returned waypoint index holds
  distinct labels, at most \<open>num_waypoints\<close> of them, each a row label of the input; and
  on a frame with at least one row and one column the sampler does return.
\<close>

theorem sampler_bound:
  assumes "int (length (col_values data)) \<le> num_waypoints" and "well_shaped data"
  shows "(\<forall>ws. max_min_sampling data num_waypoints rnd = Inr ws \<longrightarrow>
            distinct ws \<and> int (length ws) \<le> num_waypoints \<and> set ws \<subseteq> set (row_labels data))
       \<and> (row_labels data \<noteq> [] \<and> col_values data \<noteq> [] \<longrightarrow>
            (\<exists>ws. max_min_sampling data num_waypoints rnd = Inr ws))"
proof (intro conjI allI impI)
  fix ws assume r: "max_min_sampling data num_waypoints rnd = Inr ws"
  define nc where "nc = length (col_values data)"
  define n where "n = trunc_div num_waypoints (int nc)"
  from r have nc: "0 < nc" by (auto simp: max_min_sampling_def nc_def split: if_splits)
  from r obtain ps where ps: "sample_columns (col_values data) n rnd 0 [] = Inr ps"
    and ws: "ws = unique (map (\<lambda>p. row_labels data ! p) ps)"
    using nc by (auto simp: max_min_sampling_def nc_def n_def Let_def split: if_splits sum.splits)
  from sample_columns_Inr[OF ps, of "length (row_labels data)"] assms(2)
  have l: "length ps = nc * nat n" and b: "\<forall>p\<in>set ps. p < length (row_labels data)"
    by (auto simp: well_shaped_def nc_def)
  from trunc_div_bound[of "int nc" num_waypoints] nc assms(1)
  have n: "0 < n" "int nc * n \<le> num_waypoints" by (auto simp: nc_def n_def)
  have "int (length ps) = int nc * n" using l n by simp
  then have "int (length ps) \<le> num_waypoints" using n by simp
  moreover have "length ws \<le> length ps" unfolding ws using unique_length[of "map (\<lambda>p. row_labels data ! p) ps"] by simp
  ultimately show "int (length ws) \<le> num_waypoints" by linarith
  show "distinct ws" unfolding ws by (rule unique_distinct)
  show "set ws \<subseteq> set (row_labels data)" unfolding ws unique_set using b by auto
next
  assume a: "row_labels data \<noteq> [] \<and> col_values data \<noteq> []"
  define nc where "nc = length (col_values data)"
  define n where "n = trunc_div num_waypoints (int nc)"
  have nc: "0 < nc" using a by (simp add: nc_def)
  from trunc_div_bound[of "int nc" num_waypoints] nc assms(1)
  have n: "0 < n" by (auto simp: nc_def n_def)
  have "list_all (\<lambda>vec. vec \<noteq> []) (col_values data)"
    using assms(2) a by (auto simp: well_shaped_def list_all_iff)
  from sample_columns_total[OF this n, of rnd 0 "[]"]
  obtain ps where "sample_columns (col_values data) n rnd 0 [] = Inr ps" by auto
  then show "\<exists>ws. max_min_sampling data num_waypoints rnd = Inr ws"
    using nc by (simp add: max_min_sampling_def nc_def n_def Let_def)
qed

theorem sampler_bound_witness:
  "int (length (col_values demo_frame)) \<le> 4 \<and> well_shaped demo_frame
   \<and> max_min_sampling demo_frame 4 (\<lambda>c. 1) = Inr [''c1'', ''c3'', ''c0'']
   \<and> (\<exists>ws. max_min_sampling demo_frame 4 (\<lambda>c. 1) = Inr ws
         \<and> distinct ws \<and> int (length ws) \<le> 4 \<and> set ws \<subseteq> set (row_labels demo_frame))"
proof -
  have h1: "int (length (col_values demo_frame)) \<le> 4" by (simp add: demo_frame_def)
  have h2: "well_shaped demo_frame" by (simp add: demo_frame_def well_shaped_def)
  have v: "max_min_sampling demo_frame 4 (\<lambda>c. 1) = Inr [''c1'', ''c3'', ''c0'']"
    by code_simp
  from sampler_bound [OF h1 h2, of "\<lambda>c. 1"] v h1 h2 show ?thesis by simp
qed

text \<open>
  Claim C10. When \<open>num_waypoints\<close> is positive and strictly smaller than the number of
  embedding columns, the per-column iteration count truncates to 0 and the sampler raises
  instead of returning: IndexError at the first distance-column assignment (ValueError
  from the random draw when the frame has no row at all).
\<close>

theorem sampler_undefined:
  assumes "0 < num_waypoints" and "num_waypoints < int (length (col_values data))"
    and "well_shaped data"
  shows "max_min_sampling data num_waypoints rnd
           = Inl (if row_labels data = [] then ValueError else IndexError)"
proof -
  from assms obtain vec cols where c: "col_values data = vec # cols"
    by (cases "col_values data") auto
  have n: "trunc_div num_waypoints (int (length (col_values data))) = 0"
    using trunc_div_small[OF assms(1,2)] .
  have lv: "length vec = length (row_labels data)" using assms(3) c by (simp add: well_shaped_def)
  have "sample_column vec 0 (rnd 0) = Inl (if row_labels data = [] then ValueError else IndexError)"
    using lv by (auto simp: sample_column_def Let_def)
  then show ?thesis using n c by (simp add: max_min_sampling_def Let_def c)
qed

theorem sampler_undefined_witness:
  "(0::int) < 1 \<and> (1::int) < int (length (col_values demo_frame)) \<and> well_shaped demo_frame
   \<and> max_min_sampling demo_frame 1 (\<lambda>c. 1) = Inl IndexError"
proof -
  have h1: "(0::int) < 1" by simp
  have h2: "(1::int) < int (length (col_values demo_frame))" by (simp add: demo_frame_def)
  have h3: "well_shaped demo_frame" by (simp add: demo_frame_def well_shaped_def)
  have "row_labels demo_frame \<noteq> []" by (simp add: demo_frame_def)
  with sampler_undefined [OF h1 h2 h3, of "\<lambda>c. 1"] h1 h2 h3 show ?thesis by simp
qed

section \<open>Transition matrices\<close>

subsection \<open>Sparse matrices and row normalization (\<^verbatim>\<open>_normalize_transition_matrix\<close>)\<close>

text \<open>
  A matrix is the list of its rows. The source holds its matrices in scipy's CSR format;
  the functions below read them only through \<^verbatim>\<open>find\<close>, row sums and indexing,
  which see the values and not the stored zeros, so the value of every cell is all the
  model keeps.
\<close>

type_synonym matrix = "rat list list"

text \<open>A stored entry \<open>(row, column, value)\<close>: one position of the arrays \<open>x, y, z\<close>.\<close>

type_synonym edge = "nat \<times> nat \<times> rat"

definition src :: "edge \<Rightarrow> nat" where
  "src e = fst e"

definition dst :: "edge \<Rightarrow> nat" where
  "dst e = fst (snd e)"

definition weight :: "edge \<Rightarrow> rat" where
  "weight e = snd (snd e)"

text \<open>\<^verbatim>\<open>M.shape[1]\<close>\<close>

definition ncols :: "matrix \<Rightarrow> nat" where
  "ncols M = (case M of [] \<Rightarrow> 0 | r # _ \<Rightarrow> length r)"

definition wf_matrix :: "nat \<Rightarrow> nat \<Rightarrow> matrix \<Rightarrow> bool" where
  "wf_matrix nr nc M = (length M = nr \<and> list_all (\<lambda>r. length r = nc) M)"

definition nonneg_matrix :: "matrix \<Rightarrow> bool" where
  "nonneg_matrix M = list_all (list_all (\<lambda>v. 0 \<le> v)) M"

text \<open>\<^verbatim>\<open>find(M)\<close>: the non-zero cells, row by row.\<close>

definition row_entries :: "matrix \<Rightarrow> nat \<Rightarrow> edge list" where
  "row_entries M i =
     map (\<lambda>j. (i, j, M ! i ! j)) (filter (\<lambda>j. M ! i ! j \<noteq> 0) [0..<length (M ! i)])"

definition find_entries :: "matrix \<Rightarrow> edge list" where
  "find_entries M = concat (map (row_entries M) [0..<length M])"

text \<open>
  \<^verbatim>\<open>csr_matrix((z, (x, y)), [nr, nc])\<close>: entries at the same position are summed;
  a position outside the shape raises ValueError.
\<close>

definition entry_sum :: "edge list \<Rightarrow> nat \<Rightarrow> nat \<Rightarrow> rat" where
  "entry_sum es i j = sum_list (map weight (filter (\<lambda>e. src e = i \<and> dst e = j) es))"

definition csr_matrix :: "edge list \<Rightarrow> nat \<Rightarrow> nat \<Rightarrow> py_error + matrix" where
  "csr_matrix es nr nc =
     (if list_ex (\<lambda>e. nr \<le> src e \<or> nc \<le> dst e) es then Inl ValueError
      else Inr (map (\<lambda>i. map (\<lambda>j. entry_sum es i j) [0..<nc]) [0..<nr]))"

text \<open>
  The routine itself. It has no \<^verbatim>\<open>raise\<close>; the division \<^verbatim>\<open>z / D[x]\<close> is a numpy
  array division, which does not raise either. For a matrix without negative entries a
  stored non-zero entry never meets a zero row sum (lemma \<open>row_entries_nonneg_sum\<close>),
  so the division by zero of HOL is never reached on such input.
\<close>

definition normalize_transition_matrix :: "matrix \<Rightarrow> py_error + matrix" where
  "normalize_transition_matrix M =
     (let D = map sum_list M;
          es = find_entries M
      in csr_matrix (map (\<lambda>e. (src e, dst e, weight e / D ! src e)) es) (length M) (ncols M))"

text \<open>A matrix with an isolated state: the second row has no affinity at all.\<close>

definition isolated_demo :: matrix where
  "isolated_demo = [[0, 3, 1], [0, 0, 0], [1, 1, 0]]"


subsection \<open>Properties of row normalization\<close>



lemma filter_src_concat:
  assumes "\<And>k e. e \<in> set (f k) \<Longrightarrow> src e = k"
  shows "filter (\<lambda>e. src e = i \<and> P e) (concat (map f [0..<n])) = (if i < n then filter P (f i) else [])"
proof (induction n)
  case 0
  then show ?case by simp
next
  case (Suc n)
  have a: "filter (\<lambda>e. src e = i \<and> P e) (f n) = (if i = n then filter P (f n) else [])"
    using assms[of _ n] by (auto intro!: filter_cong simp: filter_empty_conv)
  have b: "i < n \<Longrightarrow> filter (\<lambda>e. src e = i \<and> P e) (f n) = []" using a by simp
  show ?case using Suc a by (auto simp: less_Suc_eq)
qed

lemma row_entries_src: "e \<in> set (row_entries M k) \<Longrightarrow> src e = k"
  by (auto simp: row_entries_def src_def)

lemma find_entries_row:
  "filter (\<lambda>e. src e = i \<and> P e) (find_entries M) = (if i < length M then filter P (row_entries M i) else [])"
  unfolding find_entries_def by (rule filter_src_concat) (rule row_entries_src)

lemma sum_list_filter_upt:
  "sum_list (map f (filter (\<lambda>j. g j \<noteq> (0::rat) \<and> P j) [0..<n])) = sum_list (map (\<lambda>j. if P j then g j else 0) [0..<n])" if "\<And>j. f j = g j"
  using that by (induction n) auto

lemma row_entries_mass:
  "sum_list (map weight (filter (\<lambda>e. P (dst e)) (row_entries M i)))
     = sum_list (map (\<lambda>j. if P j then M ! i ! j else 0) [0..<length (M ! i)])"
proof -
  have "filter (\<lambda>e. P (dst e)) (row_entries M i)
      = map (\<lambda>j. (i, j, M ! i ! j)) (filter (\<lambda>j. M ! i ! j \<noteq> 0 \<and> P j) [0..<length (M ! i)])"
    by (simp add: row_entries_def filter_map o_def dst_def conj_commute)
  then show ?thesis
    by (simp add: o_def weight_def sum_list_filter_upt[where g="\<lambda>j. M ! i ! j"])
qed

lemma find_entries_mass:
  "i < length M \<Longrightarrow>
   sum_list (map weight (filter (\<lambda>e. src e = i \<and> P (dst e)) (find_entries M)))
     = sum_list (map (\<lambda>j. if P j then M ! i ! j else 0) [0..<length (M ! i)])"
  by (simp add: find_entries_row row_entries_mass)

lemma sum_list_single_upt_out:
  "n \<le> j \<Longrightarrow> sum_list (map (\<lambda>k. if k = j then f k else (0::rat)) [0..<n]) = 0"
  by (induction n) auto

lemma sum_list_single_upt:
  "j < n \<Longrightarrow> sum_list (map (\<lambda>k. if k = j then f k else (0::rat)) [0..<n]) = f j"
proof (induction n)
  case 0
  then show ?case by simp
next
  case (Suc n)
  show ?case
  proof (cases "j = n")
    case True
    then show ?thesis using sum_list_single_upt_out[of n j f] by simp
  next
    case False
    with Suc show ?thesis by simp
  qed
qed

lemma entry_sum_find:
  "i < length M \<Longrightarrow> j < length (M ! i) \<Longrightarrow> entry_sum (find_entries M) i j = M ! i ! j"
  unfolding entry_sum_def
  using find_entries_mass[of i M "\<lambda>k. k = j"] by (simp add: sum_list_single_upt)


lemma ncols_wf: "wf_matrix nr nc M \<Longrightarrow> 0 < nr \<Longrightarrow> ncols M = nc"
  by (cases M) (auto simp: wf_matrix_def ncols_def)

lemma wf_row_length: "wf_matrix nr nc M \<Longrightarrow> i < nr \<Longrightarrow> length (M ! i) = nc"
  by (auto simp: wf_matrix_def list_all_length)

lemma find_entries_set:
  "e \<in> set (find_entries M) \<longleftrightarrow>
     src e < length M \<and> dst e < length (M ! src e) \<and> weight e = M ! src e ! dst e \<and> weight e \<noteq> 0"
  by (cases e) (auto simp: find_entries_def row_entries_def src_def dst_def weight_def)

lemma sum_list_divide:
  "sum_list (map (\<lambda>x. f x / c) xs) = sum_list (map f xs) / (c::rat)"
  by (induction xs) (auto simp: add_divide_distrib)

lemma entry_sum_map_scale:
  "entry_sum (map (\<lambda>e. (src e, dst e, weight e / D ! src e)) es) i j = entry_sum es i j / D ! i"
proof -
  have "filter (\<lambda>e. src e = i \<and> dst e = j) (map (\<lambda>e. (src e, dst e, weight e / D ! src e)) es)
      = map (\<lambda>e. (src e, dst e, weight e / D ! src e)) (filter (\<lambda>e. src e = i \<and> dst e = j) es)"
    by (simp add: filter_map o_def src_def dst_def)
  moreover have "sum_list (map weight (map (\<lambda>e. (src e, dst e, weight e / D ! src e)) (filter (\<lambda>e. src e = i \<and> dst e = j) es)))
      = sum_list (map (\<lambda>e. weight e / D ! i) (filter (\<lambda>e. src e = i \<and> dst e = j) es))"
    by (rule arg_cong[where f=sum_list]) (auto simp: weight_def)
  ultimately show ?thesis
    by (simp add: entry_sum_def sum_list_divide del: map_map)
qed

lemma normalize_dense:
  assumes "wf_matrix nr nc M"
  shows "normalize_transition_matrix M
       = Inr (map (\<lambda>i. map (\<lambda>j. M ! i ! j / sum_list (M ! i)) [0..<nc]) [0..<nr])"
proof (cases "nr = 0")
  case True
  then have "M = []" using assms by (simp add: wf_matrix_def)
  then show ?thesis using True
    by (simp add: normalize_transition_matrix_def find_entries_def csr_matrix_def ncols_def)
next
  case False
  then have nc: "ncols M = nc" and nr: "length M = nr" using assms ncols_wf by (auto simp: wf_matrix_def)
  let ?es = "map (\<lambda>e. (src e, dst e, weight e / map sum_list M ! src e)) (find_entries M)"
  have inr: "\<not> list_ex (\<lambda>e. nr \<le> src e \<or> nc \<le> dst e) ?es"
    using assms by (auto simp: list_ex_iff find_entries_set src_def dst_def nr wf_row_length)
  have "entry_sum ?es i j = M ! i ! j / sum_list (M ! i)" if "i < nr" "j < nc" for i j
    using that assms by (simp add: entry_sum_map_scale entry_sum_find nr wf_row_length)
  then have "map (\<lambda>i. map (\<lambda>j. entry_sum ?es i j) [0..<nc]) [0..<nr]
      = map (\<lambda>i. map (\<lambda>j. M ! i ! j / sum_list (M ! i)) [0..<nc]) [0..<nr]"
    by (intro map_cong) auto
  then show ?thesis using inr
    by (simp add: normalize_transition_matrix_def csr_matrix_def nc nr Let_def)
qed


lemma row_entries_nonneg_sum:
  assumes "nonneg_matrix M" and "e \<in> set (find_entries M)"
  shows "0 < sum_list (M ! src e)"
proof -
  from assms(2) have i: "src e < length M" and j: "dst e < length (M ! src e)"
    and nz: "M ! src e ! dst e \<noteq> 0" by (auto simp: find_entries_set)
  have nn: "\<forall>v\<in>set (M ! src e). 0 \<le> v"
    using assms(1) i nth_mem[OF i] by (auto simp: nonneg_matrix_def list_all_iff)
  then have "0 \<le> sum_list (M ! src e)" by (simp add: sum_list_nonneg)
  moreover have "sum_list (M ! src e) \<noteq> 0"
  proof
    assume "sum_list (M ! src e) = 0"
    then have "\<forall>v\<in>set (M ! src e). v = 0" using nn by (simp add: sum_list_nonneg_eq_0_iff)
    then show False using nz j by auto
  qed
  ultimately show ?thesis by simp
qed

lemma normalize_row_sum:
  assumes "wf_matrix nr nc M" and "normalize_transition_matrix M = Inr T" and "i < nr"
    and "sum_list (M ! i) \<noteq> 0"
  shows "sum_list (T ! i) = 1"
proof -
  have T: "T = map (\<lambda>i. map (\<lambda>j. M ! i ! j / sum_list (M ! i)) [0..<nc]) [0..<nr]"
    using assms(1,2) by (simp add: normalize_dense)
  have l: "length (M ! i) = nc" using assms(1,3) by (rule wf_row_length)
  have "sum_list (T ! i) = sum_list (map (\<lambda>j. M ! i ! j) [0..<nc]) / sum_list (M ! i)"
    using assms(3) by (simp add: T sum_list_divide)
  also have "map (\<lambda>j. M ! i ! j) [0..<nc] = M ! i" using l map_nth[of "M ! i"] by simp
  finally show ?thesis using assms(4) by simp
qed

text \<open>
  Claim C2, as amended. The routine has no error path: on every matrix without negative
  entries it returns a matrix of the same shape, in which a row of zero total affinity is
  again a row of zeros (no error is raised and no state is reported) and every other row
  sums to 1.
\<close>

theorem normalize_zero_row_silent:
  assumes "wf_matrix nr nc M" and "nonneg_matrix M"
  shows "\<exists>T. normalize_transition_matrix M = Inr T \<and> wf_matrix nr nc T
           \<and> (\<forall>i<nr. (sum_list (M ! i) = 0 \<longrightarrow> T ! i = replicate nc 0)
                      \<and> (sum_list (M ! i) \<noteq> 0 \<longrightarrow> sum_list (T ! i) = 1))"
proof -
  define T where "T = map (\<lambda>i. map (\<lambda>j. M ! i ! j / sum_list (M ! i)) [0..<nc]) [0..<nr]"
  have n: "normalize_transition_matrix M = Inr T" using assms(1) by (simp add: normalize_dense T_def)
  have wf: "wf_matrix nr nc T" by (simp add: T_def wf_matrix_def list_all_iff)
  have "T ! i = replicate nc 0" if "i < nr" "sum_list (M ! i) = 0" for i
  proof -
    have "T ! i = map (\<lambda>j. 0) [0..<nc]" using that by (simp add: T_def)
    then show ?thesis by (simp add: map_replicate_const)
  qed
  moreover have "sum_list (T ! i) = 1" if "i < nr" "sum_list (M ! i) \<noteq> 0" for i
    using normalize_row_sum[OF assms(1) n that] .
  ultimately show ?thesis using n wf by blast
qed

theorem normalize_zero_row_silent_witness:
  "wf_matrix 3 3 isolated_demo \<and> nonneg_matrix isolated_demo
   \<and> sum_list (isolated_demo ! 1) = 0 \<and> sum_list (isolated_demo ! 0) \<noteq> 0
   \<and> (\<exists>T. normalize_transition_matrix isolated_demo = Inr T \<and> wf_matrix 3 3 T
          \<and> T ! 1 = replicate 3 0 \<and> sum_list (T ! 0) = 1)"
proof -
  have h1: "wf_matrix 3 3 isolated_demo" by (simp add: isolated_demo_def wf_matrix_def)
  have h2: "nonneg_matrix isolated_demo" by (simp add: isolated_demo_def nonneg_matrix_def)
  have s: "sum_list (isolated_demo ! 1) = 0" "sum_list (isolated_demo ! 0) \<noteq> 0"
    by (simp_all add: isolated_demo_def)
  from normalize_zero_row_silent [OF h1 h2] s h1 h2 show ?thesis by auto
qed

text \<open>
  Claim C2 as stated fails: the second row of \<open>isolated_demo\<close> has zero total affinity,
  and the routine returns normally, with that row all zero.
\<close>

theorem normalize_zero_row_counterexample:
  "sum_list (isolated_demo ! 1) = 0
   \<and> normalize_transition_matrix isolated_demo = Inr [[0, 3 / 4, 1 / 4], [0, 0, 0], [1 / 2, 1 / 2, 0]]"
  by code_simp

subsection \<open>The directed chain (\<^verbatim>\<open>_construct_phenotypic_markov_chain\<close>)\<close>



definition is_backward :: "rat list \<Rightarrow> edge \<Rightarrow> bool" where
  "is_backward trajectory e = (trajectory ! src e > trajectory ! dst e)"










text \<open>
  Four waypoints. Waypoint 0 has two backward edges (to 1 and 2) and a forward edge
  (to 3); waypoint 3 has backward edges only.
\<close>

definition chain_demo_W :: matrix where
  "chain_demo_W = [[0, 1, 2, 5], [0, 0, 1, 1], [0, 1, 0, 1], [1, 1, 2, 0]]"

definition chain_demo_trajectory :: "rat list" where
  "chain_demo_trajectory = [2, 0, 1, 3]"

definition chain_demo_edges :: "edge list" where
  "chain_demo_edges =
     [(0, 1, 1 / 8), (0, 2, 1 / 4), (0, 3, 5 / 8), (1, 2, 1 / 2), (1, 3, 1 / 2),
      (2, 1, 1 / 2), (2, 3, 1 / 2), (3, 0, 1 / 4), (3, 1, 1 / 4), (3, 2, 1 / 2)]"

definition chain_demo_back_edges :: "nat list" where
  "chain_demo_back_edges = [0, 1, 5, 7, 8, 9]"


subsection \<open>The pruning rule for one source\<close>










lemma chain_demo_edges_from_W:
  "normalize_transition_matrix chain_demo_W
     = Inr [[0, 1 / 8, 1 / 4, 5 / 8], [0, 0, 1 / 2, 1 / 2], [0, 1 / 2, 0, 1 / 2], [1 / 4, 1 / 4, 1 / 2, 0]]
   \<and> find_entries [[0, 1 / 8, 1 / 4, 5 / 8], [0, 0, 1 / 2, 1 / 2], [0, 1 / 2, 0, 1 / 2], [1 / 4, 1 / 4, 1 / 2, 0]]
     = chain_demo_edges
   \<and> filter (\<lambda>k. is_backward chain_demo_trajectory (chain_demo_edges ! k)) [0..<length chain_demo_edges]
     = chain_demo_back_edges"
  by code_simp



subsection \<open>The pruned chain: forward edges, row sums and the balance of mass\<close>

text \<open>Total weight of the entries of a list that leave \<open>i\<close> for a target satisfying \<open>P\<close>.\<close>

definition edge_mass :: "(nat \<Rightarrow> bool) \<Rightarrow> nat \<Rightarrow> edge list \<Rightarrow> rat" where
  "edge_mass P i L = sum_list (map weight (filter (\<lambda>e. src e = i \<and> P (dst e)) L))"


lemma edge_mass_append: "edge_mass P i (L @ L') = edge_mass P i L + edge_mass P i L'"
  by (simp add: edge_mass_def)

































section \<open>The waypoint sequence of the orchestrators\<close>

subsection \<open>\<^verbatim>\<open>run_palantir\<close> and \<^verbatim>\<open>identify_terminal_states\<close>, up to the waypoints\<close>

text \<open>
  pandas set operations on label indexes. \<^verbatim>\<open>Index.union\<close> and \<^verbatim>\<open>Index.difference\<close>
  return the labels sorted, each once.
\<close>

definition index_union :: "'l::linorder list \<Rightarrow> 'l list \<Rightarrow> 'l list" where
  "index_union xs ys = sort (remdups (xs @ ys))"

definition index_difference :: "'l::linorder list \<Rightarrow> 'l list \<Rightarrow> 'l list" where
  "index_difference xs ys = sort (remdups (filter (\<lambda>x. x \<notin> set ys) xs))"

definition first_argmin :: "rat list \<Rightarrow> nat" where
  "first_argmin md = length (takeWhile (\<lambda>v. v \<noteq> Min (set md)) md)"

text \<open>The first position of a label in an index; \<^verbatim>\<open>.loc\<close> raises KeyError on a label that is absent.\<close>

definition label_position :: "'l list \<Rightarrow> 'l \<Rightarrow> nat" where
  "label_position ls l = length (takeWhile (\<lambda>x. x \<noteq> l) ls)"

text \<open>
  \<^verbatim>\<open>pd.Index(set(data.idxmax()).union(data.idxmin()))\<close>: the cells that attain the
  maximum or the minimum of a column. \<^verbatim>\<open>idxmax\<close> raises ValueError on a frame without
  rows.
\<close>

definition dm_boundaries :: "'l::linorder data_frame \<Rightarrow> py_error + 'l list" where
  "dm_boundaries data =
     (if row_labels data = [] \<and> col_values data \<noteq> [] then Inl ValueError
      else Inr (sort (remdups (map (\<lambda>vec. row_labels data ! first_argmax vec) (col_values data)
                               @ map (\<lambda>vec. row_labels data ! first_argmin vec) (col_values data)))))"

text \<open>
  The boundary cell closest to the early cell. The source compares Euclidean distances;
  their squares, compared here, have the same first minimum.
\<close>

definition sq_dist :: "'l data_frame \<Rightarrow> nat \<Rightarrow> nat \<Rightarrow> rat" where
  "sq_dist data p q = sum_list (map (\<lambda>vec. (vec ! p - vec ! q)\<^sup>2) (col_values data))"

definition nearest_boundary :: "'l data_frame \<Rightarrow> 'l list \<Rightarrow> 'l \<Rightarrow> py_error + 'l" where
  "nearest_boundary data bs early_cell =
     (if early_cell \<notin> set (row_labels data) then Inl KeyError
      else if bs = [] then Inl ValueError
      else
        let q = label_position (row_labels data) early_cell;
            dists = map (\<lambda>b. sq_dist data (label_position (row_labels data) b) q) bs
        in Inr (bs ! first_argmin dists))"

text \<open>
  Lines 45 to 75 of \<^verbatim>\<open>run_palantir\<close>: the start cell and the waypoint sequence handed to
  \<^verbatim>\<open>_compute_trajectory\<close> and \<^verbatim>\<open>_differentiation_entropy\<close>. \<open>num_waypoints\<close> is an
  integer (\<open>Inl\<close>) or an index supplied by the caller (\<open>Inr\<close>).
\<close>

definition run_palantir_waypoints ::
  "'l::linorder data_frame \<Rightarrow> 'l \<Rightarrow> 'l list option \<Rightarrow> int + 'l list \<Rightarrow> bool \<Rightarrow> (nat \<Rightarrow> nat)
     \<Rightarrow> py_error + 'l \<times> 'l list" where
  "run_palantir_waypoints data early_cell terminal_states num_waypoints use_early_cell_as_start rnd =
     (case dm_boundaries data of
        Inl e \<Rightarrow> Inl e
      | Inr bs \<Rightarrow>
          (case nearest_boundary data bs early_cell of
             Inl e \<Rightarrow> Inl e
           | Inr nb \<Rightarrow>
               let start_cell = (if use_early_cell_as_start then early_cell else nb) in
               (case (case num_waypoints of
                        Inl n \<Rightarrow> max_min_sampling data n rnd
                      | Inr given \<Rightarrow> Inr given) of
                  Inl e \<Rightarrow> Inl e
                | Inr sampled \<Rightarrow>
                    let waypoints = index_union sampled bs;
                        waypoints = (case terminal_states of
                                       None \<Rightarrow> waypoints
                                     | Some ts \<Rightarrow> index_union waypoints ts);
                        waypoints = unique (index_difference waypoints [start_cell])
                    in Inr (start_cell, [start_cell] @ waypoints))))"

text \<open>Lines 153 to 169 of \<^verbatim>\<open>identify_terminal_states\<close>.\<close>

definition identify_terminal_states_waypoints ::
  "'l::linorder data_frame \<Rightarrow> 'l \<Rightarrow> int \<Rightarrow> (nat \<Rightarrow> nat) \<Rightarrow> py_error + 'l \<times> 'l list" where
  "identify_terminal_states_waypoints data early_cell num_waypoints rnd =
     (case dm_boundaries data of
        Inl e \<Rightarrow> Inl e
      | Inr bs \<Rightarrow>
          (case nearest_boundary data bs early_cell of
             Inl e \<Rightarrow> Inl e
           | Inr start_cell \<Rightarrow>
               (case max_min_sampling data num_waypoints rnd of
                  Inl e \<Rightarrow> Inl e
                | Inr sampled \<Rightarrow>
                    let waypoints = index_union sampled bs;
                        waypoints = unique (index_difference waypoints [start_cell])
                    in Inr (start_cell, [start_cell] @ waypoints))))"

text \<open>The frame \<open>demo_frame\<close> again, with numbers as cell labels.\<close>

definition demo_cells :: "nat data_frame" where
  "demo_cells = \<lparr>row_labels = [10, 11, 12, 13],
                 col_values = [[0, 1/4, 1/2, 1], [1, 0, 1/2, 1/4]]\<rparr>"


subsection \<open>The start cell comes first, once\<close>

lemma start_first_once:
  "distinct (s # unique (index_difference ws [s])) \<and> count_list (s # unique (index_difference ws [s])) s = 1"
proof -
  have "s \<notin> set (unique (index_difference ws [s]))"
    by (simp add: unique_set index_difference_def)
  then show ?thesis by (simp add: unique_distinct count_list_0_iff)
qed

text \<open>
  Claim C6. Whenever \<^verbatim>\<open>run_palantir\<close> or \<^verbatim>\<open>identify_terminal_states\<close> gets as far as its
  waypoint sequence, that sequence starts with the start cell and holds it exactly once
  (and holds no label twice), whatever was sampled, whatever the boundary cells are and
  whatever terminal states the caller supplied.
\<close>

theorem start_cell_first_exactly_once:
  "(run_palantir_waypoints data early_cell terminal_states num_waypoints use_early rnd = Inr (start_cell, ws)
      \<longrightarrow> ws \<noteq> [] \<and> hd ws = start_cell \<and> count_list ws start_cell = 1 \<and> distinct ws)
   \<and> (identify_terminal_states_waypoints data early_cell n rnd = Inr (start_cell, ws)
      \<longrightarrow> ws \<noteq> [] \<and> hd ws = start_cell \<and> count_list ws start_cell = 1 \<and> distinct ws)"
proof (rule conjI; rule impI)
  assume "run_palantir_waypoints data early_cell terminal_states num_waypoints use_early rnd = Inr (start_cell, ws)"
  then obtain w where "ws = start_cell # unique (index_difference w [start_cell])"
    unfolding run_palantir_waypoints_def Let_def
    by (auto split: sum.splits if_splits option.splits)
  then show "ws \<noteq> [] \<and> hd ws = start_cell \<and> count_list ws start_cell = 1 \<and> distinct ws"
    using start_first_once[of start_cell w] by simp
next
  assume "identify_terminal_states_waypoints data early_cell n rnd = Inr (start_cell, ws)"
  then obtain w where "ws = start_cell # unique (index_difference w [start_cell])"
    unfolding identify_terminal_states_waypoints_def Let_def
    by (auto split: sum.splits if_splits)
  then show "ws \<noteq> [] \<and> hd ws = start_cell \<and> count_list ws start_cell = 1 \<and> distinct ws"
    using start_first_once[of start_cell w] by simp
qed


theorem start_cell_first_exactly_once_witness:
  "run_palantir_waypoints demo_cells 12 (Some [13, 11]) (Inl 4) False (\<lambda>c. 1) = Inr (11, [11, 10, 13])
   \<and> identify_terminal_states_waypoints demo_cells 11 4 (\<lambda>c. 1) = Inr (11, [11, 10, 13])
   \<and> hd [11, 10, 13] = (11::nat) \<and> count_list [11, 10, 13] (11::nat) = 1"
proof -
  have r: "run_palantir_waypoints demo_cells 12 (Some [13, 11]) (Inl 4) False (\<lambda>c. 1) = Inr (11, [11, 10, 13])"
    by code_simp
  have i: "identify_terminal_states_waypoints demo_cells 11 4 (\<lambda>c. 1) = Inr (11, [11, 10, 13])"
    by code_simp
  from start_cell_first_exactly_once [where data = demo_cells and early_cell = 12
      and terminal_states = "Some [13, 11]" and num_waypoints = "Inl 4" and use_early = False
      and rnd = "\<lambda>c. 1" and start_cell = 11 and ws = "[11, 10, 13]"] r
  have "hd [11, 10, 13] = (11::nat) \<and> count_list [11, 10, 13] (11::nat) = 1" by blast
  moreover from start_cell_first_exactly_once [where data = demo_cells and early_cell = 11
      and n = 4 and rnd = "\<lambda>c. 1" and start_cell = 11 and ws = "[11, 10, 13]"] i
  have "distinct [11, 10, 13::nat]" by blast
  ultimately show ?thesis using r i by blast
qed


section \<open>Trajectory refinement (\<^verbatim>\<open>_compute_trajectory\<close>, lines 278 to 311)\<close>

text \<open>
  \<open>D\<close> and \<open>W\<close> hold one row per waypoint and one column per cell; \<open>waypoints\<close> gives the
  cell position of every waypoint, the start cell first; a trajectory has one value per
  cell. The row of \<open>P\<close> for the waypoint at position \<open>k \<ge> 1\<close> of the sequence is the row of
  \<open>D\<close> with the cells before the waypoint negated, shifted by the waypoint's own value;
  the row of the start cell is the row of \<open>D\<close>.
\<close>

definition perspective_row :: "matrix \<Rightarrow> nat list \<Rightarrow> rat list \<Rightarrow> nat \<Rightarrow> rat list" where
  "perspective_row D waypoints trajectory k =
     (if k = 0 then D ! 0
      else
        let idx_val = trajectory ! (waypoints ! k)
        in map (\<lambda>c. (if trajectory ! c < idx_val then - (D ! k ! c) else D ! k ! c) + idx_val)
             [0..<length trajectory])"

text \<open>\<^verbatim>\<open>new_traj = P.multiply(W).sum()\<close>: the column sums of the entrywise product.\<close>

definition refine_pass :: "matrix \<Rightarrow> matrix \<Rightarrow> nat list \<Rightarrow> rat list \<Rightarrow> rat list" where
  "refine_pass D W waypoints trajectory =
     map (\<lambda>c. sum_list (map (\<lambda>k. perspective_row D waypoints trajectory k ! c * W ! k ! c)
                           [0..<length waypoints]))
       [0..<length trajectory]"

text \<open>
  The \<^verbatim>\<open>while\<close> loop, on its state \<open>(converged, trajectory, iteration)\<close>; the result is
  the state in which the loop is left. \<open>pearsonr\<close> stands for the first component of
  scipy's \<^verbatim>\<open>pearsonr\<close>.
\<close>

function refine_loop ::
  "(rat list \<Rightarrow> rat list \<Rightarrow> real) \<Rightarrow> matrix \<Rightarrow> matrix \<Rightarrow> nat list \<Rightarrow> int
     \<Rightarrow> bool \<Rightarrow> rat list \<Rightarrow> int \<Rightarrow> bool \<times> rat list \<times> int" where
  "refine_loop pearsonr D W waypoints max_iterations converged trajectory iteration =
     (if \<not> converged \<and> iteration < max_iterations then
        let new_traj = refine_pass D W waypoints trajectory;
            corr = pearsonr trajectory new_traj
        in refine_loop pearsonr D W waypoints max_iterations (corr > 0.9999) new_traj (iteration + 1)
      else (converged, trajectory, iteration))"
  by pat_completeness auto
termination
  by (relation "measure (\<lambda>(pearsonr, D, W, waypoints, max_iterations, converged, trajectory, iteration).
        nat (max_iterations - iteration))") auto

declare refine_loop.simps [simp del]

text \<open>
  From \<^verbatim>\<open>trajectory = D.loc[start_cell, :]\<close> to the \<^verbatim>\<open>return\<close>: the trajectory that is
  returned. The start cell is the first waypoint, so its row of \<open>D\<close> is row 0.
\<close>

definition compute_trajectory_refinement ::
  "(rat list \<Rightarrow> rat list \<Rightarrow> real) \<Rightarrow> matrix \<Rightarrow> matrix \<Rightarrow> nat list \<Rightarrow> int \<Rightarrow> rat list" where
  "compute_trajectory_refinement pearsonr D W waypoints max_iterations =
     fst (snd (refine_loop pearsonr D W waypoints max_iterations False (D ! 0) 1))"

text \<open>The estimate after \<open>k\<close> passes, and whether pass number \<open>k + 1\<close> meets the threshold.\<close>

definition estimate :: "matrix \<Rightarrow> matrix \<Rightarrow> nat list \<Rightarrow> nat \<Rightarrow> rat list" where
  "estimate D W waypoints k = ((refine_pass D W waypoints) ^^ k) (D ! 0)"

definition pass_converges ::
  "(rat list \<Rightarrow> rat list \<Rightarrow> real) \<Rightarrow> matrix \<Rightarrow> matrix \<Rightarrow> nat list \<Rightarrow> nat \<Rightarrow> bool" where
  "pass_converges pearsonr D W waypoints k =
     (pearsonr (estimate D W waypoints k) (estimate D W waypoints (Suc k)) > 0.9999)"

text \<open>Two waypoints over three cells, for evaluation.\<close>

definition traj_demo_D :: matrix where
  "traj_demo_D = [[0, 1, 3], [2, 1, 0]]"

definition traj_demo_W :: matrix where
  "traj_demo_W = [[3 / 4, 1 / 2, 1 / 4], [1 / 4, 1 / 2, 3 / 4]]"


subsection \<open>How many passes the loop makes\<close>

lemma refine_loop_converged:
  "refine_loop pearsonr D W waypoints max_iterations True trajectory iteration
     = (True, trajectory, iteration)"
  by (subst refine_loop.simps) simp

lemma refine_loop_exhausted:
  "max_iterations \<le> iteration \<Longrightarrow>
   refine_loop pearsonr D W waypoints max_iterations converged trajectory iteration
     = (converged, trajectory, iteration)"
  by (subst refine_loop.simps) simp

lemma refine_loop_step:
  "iteration < max_iterations \<Longrightarrow>
   refine_loop pearsonr D W waypoints max_iterations False trajectory iteration
     = refine_loop pearsonr D W waypoints max_iterations
         (pearsonr trajectory (refine_pass D W waypoints trajectory) > 0.9999)
         (refine_pass D W waypoints trajectory) (iteration + 1)"
  by (subst refine_loop.simps) (simp add: Let_def)

lemma refine_loop_passes:
  fixes pearsonr :: "rat list \<Rightarrow> rat list \<Rightarrow> real" and D W :: matrix and waypoints :: "nat list"
  defines "conv \<equiv> \<lambda>t k. pearsonr ((refine_pass D W waypoints ^^ k) t)
                              ((refine_pass D W waypoints ^^ Suc k) t) > 0.9999"
  shows "\<exists>m c. refine_loop pearsonr D W waypoints max_iterations False t it
             = (c, (refine_pass D W waypoints ^^ m) t, it + int m)
          \<and> (\<forall>k. Suc k < m \<longrightarrow> \<not> conv t k)
          \<and> (c \<longleftrightarrow> 0 < m \<and> conv t (m - 1))
          \<and> (c \<or> max_iterations \<le> it + int m)
          \<and> (m = 0 \<or> it + int m \<le> max_iterations)"
proof (induction "nat (max_iterations - it)" arbitrary: t it)
  case 0
  then have "max_iterations \<le> it" by simp
  then have "refine_loop pearsonr D W waypoints max_iterations False t it = (False, t, it)"
    by (rule refine_loop_exhausted)
  then show ?case using \<open>max_iterations \<le> it\<close> by (intro exI[of _ 0] exI[of _ False]) simp
next
  case (Suc n)
  then have lt: "it < max_iterations" by simp
  let ?p = "refine_pass D W waypoints"
  note step = refine_loop_step[OF lt, of pearsonr D W waypoints t]
  show ?case
  proof (cases "conv t 0")
    case True
    then have "refine_loop pearsonr D W waypoints max_iterations False t it = (True, ?p t, it + 1)"
      using step by (simp add: conv_def refine_loop_converged)
    then show ?thesis using True lt by (intro exI[of _ 1] exI[of _ True]) simp
  next
    case False
    have n: "n = nat (max_iterations - (it + 1))" using Suc(2) by simp
    from Suc(1)[OF n, of "?p t"] obtain m c where
      r: "refine_loop pearsonr D W waypoints max_iterations False (?p t) (it + 1)
            = (c, (?p ^^ m) (?p t), it + 1 + int m)"
      and a: "\<forall>k. Suc k < m \<longrightarrow> \<not> conv (?p t) k"
      and b: "c \<longleftrightarrow> 0 < m \<and> conv (?p t) (m - 1)"
      and d: "c \<or> max_iterations \<le> it + 1 + int m"
      and e: "m = 0 \<or> it + 1 + int m \<le> max_iterations" by blast
    have sh: "conv (?p t) k = conv t (Suc k)" for k
      by (simp add: conv_def funpow_swap1)
    have r': "refine_loop pearsonr D W waypoints max_iterations False t it
            = (c, (?p ^^ Suc m) t, it + int (Suc m))"
      using step False r by (simp add: conv_def funpow_swap1)
    have a': "\<forall>k. Suc k < Suc m \<longrightarrow> \<not> conv t k"
    proof (intro allI impI)
      fix k assume k: "Suc k < Suc m"
      show "\<not> conv t k"
      proof (cases k)
        case 0
        then show ?thesis using False by simp
      next
        case (Suc k')
        then have "Suc k' < m" using k by simp
        then show ?thesis using a sh Suc by simp
      qed
    qed
    have b': "c \<longleftrightarrow> 0 < Suc m \<and> conv t (Suc m - 1)"
    proof (cases m)
      case 0
      then show ?thesis using b False by simp
    next
      case (Suc m')
      then show ?thesis using b sh by simp
    qed
    have d': "c \<or> max_iterations \<le> it + int (Suc m)" using d by (auto simp: algebra_simps)
    have e': "Suc m = 0 \<or> it + int (Suc m) \<le> max_iterations" using e lt by (auto simp: algebra_simps)
    show ?thesis using r' a' b' d' e' by blast
  qed
qed


text \<open>
  Claim C5. Started on the distances to the start cell, the loop makes \<open>m\<close> refinement
  passes and returns the estimate after the last of them, where \<open>m\<close> is at most
  \<open>max_iterations\<close> (indeed at most \<open>max_iterations - 1\<close>: the counter starts at 1 and the
  loop runs while it is below \<open>max_iterations\<close>); no pass before the last one had a
  correlation above 0.9999; the loop is left converged exactly when the last pass had such
  a correlation, and otherwise because the counter has reached \<open>max_iterations\<close>. The loop
  is a total function: it has no error path.
\<close>

theorem refinement_loop_passes:
  "\<exists>m c. refine_loop pearsonr D W waypoints max_iterations False (D ! 0) 1
            = (c, estimate D W waypoints m, 1 + int m)
     \<and> compute_trajectory_refinement pearsonr D W waypoints max_iterations = estimate D W waypoints m
     \<and> m \<le> nat max_iterations \<and> m \<le> nat (max_iterations - 1)
     \<and> (\<forall>k. Suc k < m \<longrightarrow> \<not> pass_converges pearsonr D W waypoints k)
     \<and> (c \<longleftrightarrow> 0 < m \<and> pass_converges pearsonr D W waypoints (m - 1))
     \<and> (c \<or> max_iterations \<le> 1 + int m)"
proof -
  from refine_loop_passes[of pearsonr D W waypoints max_iterations "D ! 0" 1]
  obtain m c where
    r: "refine_loop pearsonr D W waypoints max_iterations False (D ! 0) 1
          = (c, (refine_pass D W waypoints ^^ m) (D ! 0), 1 + int m)"
    and a: "\<forall>k. Suc k < m \<longrightarrow> \<not> pass_converges pearsonr D W waypoints k"
    and b: "c \<longleftrightarrow> 0 < m \<and> pass_converges pearsonr D W waypoints (m - 1)"
    and d: "c \<or> max_iterations \<le> 1 + int m"
    and e: "m = 0 \<or> 1 + int m \<le> max_iterations"
    unfolding pass_converges_def estimate_def by blast
  have "m \<le> nat (max_iterations - 1)" using e by auto
  moreover have "m \<le> nat max_iterations" using e by auto
  moreover have "compute_trajectory_refinement pearsonr D W waypoints max_iterations
      = estimate D W waypoints m"
    by (simp add: compute_trajectory_refinement_def r estimate_def)
  ultimately show ?thesis using r a b d unfolding estimate_def by blast
qed

theorem refinement_loop_passes_witness:
  "refine_loop (\<lambda>x y. 0) traj_demo_D traj_demo_W [0, 2] 3 False (traj_demo_D ! 0) 1
      = (False, [1 / 4, 3 / 2, 3], 3)
   \<and> (\<exists>m. compute_trajectory_refinement (\<lambda>x y. 0) traj_demo_D traj_demo_W [0, 2] 3
            = estimate traj_demo_D traj_demo_W [0, 2] m
          \<and> m = 2 \<and> m \<le> nat 3
          \<and> \<not> pass_converges (\<lambda>x y. 0) traj_demo_D traj_demo_W [0, 2] 0)"
proof -
  have v: "refine_loop (\<lambda>x y. 0) traj_demo_D traj_demo_W [0, 2] 3 False (traj_demo_D ! 0) 1
      = (False, [1 / 4, 3 / 2, 3], 3)"
    by code_simp
  from refinement_loop_passes [of "\<lambda>x y. 0" traj_demo_D traj_demo_W "[0, 2]" 3]
  obtain m c where
    r: "refine_loop (\<lambda>x y. 0) traj_demo_D traj_demo_W [0, 2] 3 False (traj_demo_D ! 0) 1
          = (c, estimate traj_demo_D traj_demo_W [0, 2] m, 1 + int m)"
    and t: "compute_trajectory_refinement (\<lambda>x y. 0) traj_demo_D traj_demo_W [0, 2] 3
          = estimate traj_demo_D traj_demo_W [0, 2] m"
    and le: "m \<le> nat 3"
    and a: "\<forall>k. Suc k < m \<longrightarrow> \<not> pass_converges (\<lambda>x y. 0) traj_demo_D traj_demo_W [0, 2] k"
    by blast
  from r v have m: "m = 2" by simp
  with a have "\<not> pass_converges (\<lambda>x y. 0) traj_demo_D traj_demo_W [0, 2] 0" by simp
  then show ?thesis using v t m le by blast
qed


section \<open>Absorption probabilities (\<^verbatim>\<open>_compute_absorption_probabilities\<close>)\<close>

text \<open>
  The function assigns into the matrix object it is handed before it rebinds its local
  name, so the caller's matrix is part of its effect. Matrix objects live in a store, a
  map from addresses to values; the function takes the address of its argument and
  returns the store it leaves behind together with its result.
\<close>

type_synonym store = "nat \<Rightarrow> matrix"

text \<open>\<^verbatim>\<open>T[abs_states, :] = 0\<close>\<close>

definition zero_rows :: "matrix \<Rightarrow> nat list \<Rightarrow> matrix" where
  "zero_rows T abs_states =
     map (\<lambda>i. if i \<in> set abs_states then map (\<lambda>v. 0) (T ! i) else T ! i) [0..<length T]"

text \<open>\<^verbatim>\<open>T[abs_states, abs_states] = 1\<close>: the two index arrays are read in pairs.\<close>

definition set_diagonal :: "matrix \<Rightarrow> nat list \<Rightarrow> matrix" where
  "set_diagonal T abs_states =
     map (\<lambda>i. if i \<in> set abs_states then (T ! i)[i := 1] else T ! i) [0..<length T]"

text \<open>\<^verbatim>\<open>T[rows, :][:, cols]\<close>\<close>

definition submatrix :: "matrix \<Rightarrow> nat list \<Rightarrow> nat list \<Rightarrow> matrix" where
  "submatrix T rows cols = map (\<lambda>i. map (\<lambda>j. T ! i ! j) cols) rows"

text \<open>\<^verbatim>\<open>np.eye(Q.shape[0]) - Q.todense()\<close>\<close>

definition eye_minus :: "matrix \<Rightarrow> matrix" where
  "eye_minus Q =
     map (\<lambda>i. map (\<lambda>j. (if i = j then 1 else 0) - Q ! i ! j) [0..<length Q]) [0..<length Q]"

text \<open>\<^verbatim>\<open>np.dot(A, B)\<close> for a matrix \<open>B\<close> of \<open>nc\<close> columns.\<close>

definition dot :: "matrix \<Rightarrow> matrix \<Rightarrow> nat \<Rightarrow> matrix" where
  "dot A B nc =
     map (\<lambda>row. map (\<lambda>j. sum_list (map (\<lambda>k. row ! k * B ! k ! j) [0..<length B])) [0..<nc]) A"

text \<open>\<^verbatim>\<open>probs[probs < 0] = 0\<close>\<close>

definition clamp_negative :: "matrix \<Rightarrow> matrix" where
  "clamp_negative M = map (map (\<lambda>v. if v < 0 then 0 else v)) M"

text \<open>
  The function. \<open>linalg_inv\<close> stands for \<^verbatim>\<open>numpy.linalg.inv\<close>, which raises LinAlgError on a
  singular matrix. An absorbing state outside the matrix makes the first assignment raise
  IndexError, before anything is written.
\<close>

definition compute_absorption_probabilities ::
  "(matrix \<Rightarrow> py_error + matrix) \<Rightarrow> store \<Rightarrow> nat \<Rightarrow> nat list \<Rightarrow> store \<times> (py_error + matrix)" where
  "compute_absorption_probabilities linalg_inv st a abs_states =
     (if list_ex (\<lambda>s. length (st a) \<le> s) abs_states then (st, Inl IndexError)
      else
        let st = st(a := zero_rows (st a) abs_states);
            st = st(a := set_diagonal (st a) abs_states)
        in (st,
            case normalize_transition_matrix (st a) of
              Inl e \<Rightarrow> Inl e
            | Inr T \<Rightarrow>
                let N = length T;
                    trans_states = filter (\<lambda>i. i \<notin> set abs_states) [0..<N];
                    Q = submatrix T trans_states trans_states;
                    mat = eye_minus Q
                in case linalg_inv mat of
                     Inl e \<Rightarrow> Inl e
                   | Inr N \<Rightarrow>
                       Inr (clamp_negative
                              (dot N (submatrix T trans_states abs_states) (length abs_states)))))"

text \<open>
  Lines 112 to 118 of \<^verbatim>\<open>fate_prediction\<close>, from the affinity matrix \<open>W\<close>: the value of
  the caller's variable \<open>T\<close> after the call, and the probabilities.
\<close>

definition fate_prediction_absorption ::
  "(matrix \<Rightarrow> py_error + matrix) \<Rightarrow> matrix \<Rightarrow> nat list \<Rightarrow> py_error + matrix \<times> (py_error + matrix)" where
  "fate_prediction_absorption linalg_inv W abs_states =
     (case normalize_transition_matrix W of
        Inl e \<Rightarrow> Inl e
      | Inr T \<Rightarrow>
          let st = (\<lambda>b. [])(0 := T);
              (st, probs) = compute_absorption_probabilities linalg_inv st 0 abs_states
          in Inr (st 0, probs))"

text \<open>An inverse routine that always reports a singular matrix.\<close>

definition inv_fails :: "matrix \<Rightarrow> py_error + matrix" where
  "inv_fails A = Inl LinAlgError"

text \<open>The row normalization of \<open>chain_demo_W\<close>.\<close>

definition chain_demo_T :: matrix where
  "chain_demo_T = [[0, 1 / 8, 1 / 4, 5 / 8], [0, 0, 1 / 2, 1 / 2], [0, 1 / 2, 0, 1 / 2], [1 / 4, 1 / 4, 1 / 2, 0]]"


subsection \<open>The argument is changed in place\<close>

lemma absorbed_row:
  assumes "i < length T"
  shows "set_diagonal (zero_rows T abs_states) abs_states ! i
       = (if i \<in> set abs_states then (replicate (length (T ! i)) 0)[i := 1] else T ! i)"
  using assms by (simp add: set_diagonal_def zero_rows_def map_replicate_const)

lemma absorbed_length: "length (set_diagonal (zero_rows T abs_states) abs_states) = length T"
  by (simp add: set_diagonal_def zero_rows_def)

text \<open>
  Claim C9. For absorbing states that lie inside the matrix, the call leaves at the
  address of its argument the matrix in which the row of every absorbing state is zero
  except for a 1 on the diagonal and every other row is as before, whatever the inversion
  does afterwards (also when it raises); no other address is written. So the argument
  has lost its value from before the call as soon as one absorbing row was not already
  such a unit row.
\<close>

theorem absorption_mutates_argument:
  assumes "\<forall>s\<in>set abs_states. s < length (st a)"
  shows "length (fst (compute_absorption_probabilities linalg_inv st a abs_states) a) = length (st a)
     \<and> (\<forall>i<length (st a).
           fst (compute_absorption_probabilities linalg_inv st a abs_states) a ! i
             = (if i \<in> set abs_states then (replicate (length (st a ! i)) 0)[i := 1] else st a ! i))
     \<and> (\<forall>b. b \<noteq> a \<longrightarrow> fst (compute_absorption_probabilities linalg_inv st a abs_states) b = st b)
     \<and> ((\<exists>s\<in>set abs_states. st a ! s \<noteq> (replicate (length (st a ! s)) 0)[s := 1])
           \<longrightarrow> fst (compute_absorption_probabilities linalg_inv st a abs_states) a \<noteq> st a)"
proof -
  have nex: "\<not> list_ex (\<lambda>s. length (st a) \<le> s) abs_states"
    using assms by (auto simp: list_ex_iff)
  have f: "fst (compute_absorption_probabilities linalg_inv st a abs_states)
      = st(a := set_diagonal (zero_rows (st a) abs_states) abs_states)"
    using nex by (simp add: compute_absorption_probabilities_def Let_def)
  have rows: "\<forall>i<length (st a).
           fst (compute_absorption_probabilities linalg_inv st a abs_states) a ! i
             = (if i \<in> set abs_states then (replicate (length (st a ! i)) 0)[i := 1] else st a ! i)"
    by (simp add: f absorbed_row)
  have "fst (compute_absorption_probabilities linalg_inv st a abs_states) a \<noteq> st a"
    if "\<exists>s\<in>set abs_states. st a ! s \<noteq> (replicate (length (st a ! s)) 0)[s := 1]"
  proof -
    from that obtain s where s: "s \<in> set abs_states"
      "st a ! s \<noteq> (replicate (length (st a ! s)) 0)[s := 1]" by blast
    then have "s < length (st a)" using assms by blast
    with rows s have "fst (compute_absorption_probabilities linalg_inv st a abs_states) a ! s \<noteq> st a ! s"
      by simp
    then show ?thesis by metis
  qed
  then show ?thesis using rows by (simp add: f absorbed_length)
qed


theorem absorption_mutates_argument_witness:
  "list_all (\<lambda>s. s < length (((\<lambda>b. [])(0 := chain_demo_T)) 0)) [3]
   \<and> normalize_transition_matrix chain_demo_W = Inr chain_demo_T
   \<and> fate_prediction_absorption inv_fails chain_demo_W [3]
       = Inr ([[0, 1 / 8, 1 / 4, 5 / 8], [0, 0, 1 / 2, 1 / 2], [0, 1 / 2, 0, 1 / 2], [0, 0, 0, 1]],
              Inl LinAlgError)
   \<and> fst (compute_absorption_probabilities inv_fails ((\<lambda>b. [])(0 := chain_demo_T)) 0 [3]) 0 ! 3
       = [0, 0, 0, 1]
   \<and> fst (compute_absorption_probabilities inv_fails ((\<lambda>b. [])(0 := chain_demo_T)) 0 [3]) 0
       \<noteq> chain_demo_T"
proof -
  let ?st = "(\<lambda>b. [])(0 := chain_demo_T) :: store"
  have h: "\<forall>s\<in>set [3]. s < length (?st 0)" by (simp add: chain_demo_T_def)
  have p: "\<exists>s\<in>set [3]. ?st 0 ! s \<noteq> (replicate (length (?st 0 ! s)) 0)[s := 1]"
    by (simp add: chain_demo_T_def)
  have n: "normalize_transition_matrix chain_demo_W = Inr chain_demo_T" by code_simp
  have v: "fate_prediction_absorption inv_fails chain_demo_W [3]
       = Inr ([[0, 1 / 8, 1 / 4, 5 / 8], [0, 0, 1 / 2, 1 / 2], [0, 1 / 2, 0, 1 / 2], [0, 0, 0, 1]],
              Inl LinAlgError)"
    by code_simp
  have r: "(replicate (length (chain_demo_T ! 3)) 0)[3 := 1] = [0, 0, 0, 1::rat]"
    by code_simp
  from absorption_mutates_argument [where st = ?st and a = 0 and abs_states = "[3]"
      and linalg_inv = inv_fails, OF h] p r
  have "fst (compute_absorption_probabilities inv_fails ?st 0 [3]) 0 ! 3 = [0, 0, 0, 1]
      \<and> fst (compute_absorption_probabilities inv_fails ?st 0 [3]) 0 \<noteq> chain_demo_T"
    by (simp add: chain_demo_T_def)
  then show ?thesis using h n v by simp
qed


subsection \<open>The fundamental matrix of a substochastic block\<close>








section \<open>Branch probabilities and entropy (\<^verbatim>\<open>_differentiation_entropy\<close>)\<close>










subsection \<open>Rows of the matrix handed to the solver\<close>













subsection \<open>The assembled branch probabilities\<close>

lemma label_position_nth:
  assumes "distinct ts" and "k < length ts" and "c \<in> set ts"
  shows "label_position ts c = k \<longleftrightarrow> c = ts ! k"
proof
  assume e: "label_position ts c = k"
  have "length (takeWhile (\<lambda>x. x \<noteq> c) ts) < length ts" using e assms(2) by (simp add: label_position_def)
  from nth_length_takeWhile[OF this] show "c = ts ! k" using e by (simp add: label_position_def)
next
  assume c: "c = ts ! k"
  have "takeWhile (\<lambda>x. x \<noteq> c) ts = take k ts"
  proof (rule takeWhile_eq_take_P_nth)
    fix i assume "i < k" "i < length ts"
    then show "ts ! i \<noteq> c" using assms(1,2) c by (simp add: nth_eq_iff_index_eq)
  next
    show "\<not> ts ! k \<noteq> c" using c by simp
  qed
  then show "label_position ts c = k" using assms(2) by (simp add: label_position_def)
qed




section \<open>Connectivity repair of the neighbour graph (\<^verbatim>\<open>_connect_graph\<close>)\<close>

text \<open>
  The adjacency matrix is sparse: it is the list of its stored entries, and scipy's
  shortest paths walk the stored entries (a stored zero is an edge of length zero). With
  \<^verbatim>\<open>directed=False\<close> an entry is walked in both directions.
\<close>

definition undirected_edges :: "edge list \<Rightarrow> (nat \<times> nat) set" where
  "undirected_edges adj = set (map (\<lambda>e. (src e, dst e)) adj @ map (\<lambda>e. (dst e, src e)) adj)"

definition reach :: "edge list \<Rightarrow> nat \<Rightarrow> nat \<Rightarrow> bool" where
  "reach adj s v = (v = s \<or> (s, v) \<in> (undirected_edges adj)\<^sup>+)"

text \<open>
  \<^verbatim>\<open>csgraph.dijkstra(adj, False, start_cell)\<close> on \<open>n\<close> nodes: \<open>None\<close> is the infinite
  distance of a node that cannot be reached. The finite distances are those of \<open>spd\<close>,
  which stands for scipy's shortest path lengths; they only decide which reachable node is
  taken as the farthest.
\<close>

definition dijkstra :: "(edge list \<Rightarrow> nat \<Rightarrow> nat \<Rightarrow> rat) \<Rightarrow> edge list \<Rightarrow> nat \<Rightarrow> nat \<Rightarrow> rat option list" where
  "dijkstra spd adj n start =
     map (\<lambda>v. if reach adj start v then Some (spd adj start v) else None) [0..<n]"

text \<open>\<^verbatim>\<open>pd.Series(dists[reacheable], index=data.index[reacheable])\<close>\<close>

definition reachable_series :: "'l list \<Rightarrow> rat option list \<Rightarrow> ('l \<times> rat) list" where
  "reachable_series labels dists =
     map (\<lambda>p. (labels ! p, the (dists ! p))) (filter (\<lambda>p. dists ! p \<noteq> None) [0..<length dists])"

text \<open>\<^verbatim>\<open>Series.idxmax()\<close> and \<^verbatim>\<open>Series.idxmin()\<close>: the label of the first extreme value.\<close>

definition idxmax :: "('l \<times> rat) list \<Rightarrow> 'l" where
  "idxmax s = fst (s ! first_argmax (map snd s))"

definition idxmin :: "('l \<times> rat) list \<Rightarrow> 'l" where
  "idxmin s = fst (s ! first_argmin (map snd s))"

text \<open>\<^verbatim>\<open>adj[i, j] = v\<close>: the entry is stored, in place of an older one at the position.\<close>

definition set_entry :: "edge list \<Rightarrow> nat \<Rightarrow> nat \<Rightarrow> rat \<Rightarrow> edge list" where
  "set_entry adj i j v = (i, j, v) # filter (\<lambda>e. \<not> (src e = i \<and> dst e = j)) adj"

text \<open>
  The loop, from the first shortest path computation on. \<open>pdist p q\<close> stands for the
  Euclidean distance between the rows \<open>p\<close> and \<open>q\<close> of the data
  (\<^verbatim>\<open>pairwise_distances\<close>). The loop need not end on every input, so it returns an
  option: \<open>None\<close> is a loop that never returns.
\<close>

partial_function (option) connect_loop ::
  "(edge list \<Rightarrow> nat \<Rightarrow> nat \<Rightarrow> rat) \<Rightarrow> (nat \<Rightarrow> nat \<Rightarrow> rat) \<Rightarrow> 'l::linorder list \<Rightarrow> nat \<Rightarrow> edge list
     \<Rightarrow> edge list option" where
  "connect_loop spd pdist labels start_cell adj =
     (let dists = reachable_series labels (dijkstra spd adj (length labels) start_cell);
          unreachable_nodes = index_difference labels (map fst dists)
      in if length unreachable_nodes > 0 then
           let farthest_reachable = label_position labels (idxmax dists);
               unreachable_dists = map (\<lambda>l. (l, pdist farthest_reachable (label_position labels l)))
                                     unreachable_nodes;
               add_edge = label_position labels (idxmin unreachable_dists)
           in connect_loop spd pdist labels start_cell
                (set_entry adj farthest_reachable add_edge (Min (set (map snd unreachable_dists))))
         else Some adj)"

declare connect_loop.simps [code]

definition connect_graph ::
  "(edge list \<Rightarrow> nat \<Rightarrow> nat \<Rightarrow> rat) \<Rightarrow> (nat \<Rightarrow> nat \<Rightarrow> rat) \<Rightarrow> 'l::linorder list \<Rightarrow> edge list \<Rightarrow> nat
     \<Rightarrow> edge list option" where
  "connect_graph spd pdist labels adj start_cell = connect_loop spd pdist labels start_cell adj"

text \<open>
  Five cells on a line at the positions 0 to 4; the neighbour graph has the two components
  \<open>{0, 1, 2}\<close> and \<open>{3, 4}\<close>.
\<close>

definition graph_demo_adj :: "edge list" where
  "graph_demo_adj = [(0, 1, 1), (2, 1, 1), (3, 4, 1), (4, 3, 1)]"

definition graph_demo_spd :: "edge list \<Rightarrow> nat \<Rightarrow> nat \<Rightarrow> rat" where
  "graph_demo_spd adj s v = \<bar>rat_of_nat v - rat_of_nat s\<bar>"

definition graph_demo_pdist :: "nat \<Rightarrow> nat \<Rightarrow> rat" where
  "graph_demo_pdist p q = \<bar>rat_of_nat p - rat_of_nat q\<bar>"

subsection \<open>The repair ends with every node in reach\<close>

lemma first_argmin_less: "md \<noteq> [] \<Longrightarrow> first_argmin md < length md"
proof -
  assume "md \<noteq> []"
  then have "Min (set md) \<in> set md" by (intro Min_in) auto
  then have "dropWhile (\<lambda>v. v \<noteq> Min (set md)) md \<noteq> []"
    by (auto simp: dropWhile_eq_Nil_conv)
  moreover have "length md = length (takeWhile (\<lambda>v. v \<noteq> Min (set md)) md)
      + length (dropWhile (\<lambda>v. v \<noteq> Min (set md)) md)"
    by (metis length_append takeWhile_dropWhile_id)
  ultimately show ?thesis unfolding first_argmin_def by simp
qed

lemma reach_refl: "reach adj s s"
  by (simp add: reach_def)

lemma reach_mono:
  "undirected_edges adj \<subseteq> undirected_edges adj' \<Longrightarrow> reach adj s v \<Longrightarrow> reach adj' s v"
  unfolding reach_def using trancl_mono by blast

lemma reach_step:
  "reach adj s f \<Longrightarrow> (f, u) \<in> undirected_edges adj \<Longrightarrow> reach adj s u"
  unfolding reach_def by (auto intro: trancl_into_trancl)

lemma set_entry_edges:
  "undirected_edges adj \<subseteq> undirected_edges (set_entry adj f u w)"
  "(f, u) \<in> undirected_edges (set_entry adj f u w)"
  by (auto simp: undirected_edges_def set_entry_def src_def dst_def)

lemma dijkstra_series:
  "map fst (reachable_series labels (dijkstra spd adj (length labels) s))
     = map (\<lambda>p. labels ! p) (filter (reach adj s) [0..<length labels])"
proof -
  have "filter (\<lambda>p. dijkstra spd adj (length labels) s ! p \<noteq> None) [0..<length labels]
      = filter (reach adj s) [0..<length labels]"
    by (intro filter_cong) (auto simp: dijkstra_def)
  then show ?thesis by (simp add: reachable_series_def dijkstra_def o_def)
qed

lemma unreachable_nodes_set:
  assumes "distinct labels"
  shows "set (index_difference labels (map (\<lambda>p. labels ! p) (filter (reach adj s) [0..<length labels])))
       = {labels ! p | p. p < length labels \<and> \<not> reach adj s p}"
proof -
  have "l \<notin> set (map (\<lambda>p. labels ! p) (filter (reach adj s) [0..<length labels]))
      \<longleftrightarrow> \<not> reach adj s p" if "p < length labels" "l = labels ! p" for l p
    using that assms by (auto simp: nth_eq_iff_index_eq)
  then show ?thesis
    unfolding index_difference_def by (auto simp: in_set_conv_nth)
qed


lemma label_position_of_nth:
  "distinct labels \<Longrightarrow> p < length labels \<Longrightarrow> label_position labels (labels ! p) = p"
  using label_position_nth[of labels p "labels ! p"] by simp

lemma connect_loop_done:
  assumes d: "distinct labels" and all: "\<forall>p<length labels. reach adj s p"
  shows "connect_loop spd pdist labels s adj = Some adj"
proof -
  have "set (index_difference labels (map fst (reachable_series labels (dijkstra spd adj (length labels) s)))) = {}"
    unfolding dijkstra_series unreachable_nodes_set[OF d] using all by auto
  then have "index_difference labels (map fst (reachable_series labels (dijkstra spd adj (length labels) s))) = []"
    by simp
  then show ?thesis by (subst connect_loop.simps) (simp add: Let_def)
qed

lemma connect_loop_step:
  assumes d: "distinct labels" and s: "s < length labels"
    and un: "p0 < length labels" "\<not> reach adj s p0"
  shows "\<exists>f u w. f < length labels \<and> u < length labels \<and> reach adj s f \<and> \<not> reach adj s u
           \<and> connect_loop spd pdist labels s adj
               = connect_loop spd pdist labels s (set_entry adj f u w)"
proof -
  define series where "series = reachable_series labels (dijkstra spd adj (length labels) s)"
  define U where "U = index_difference labels (map fst series)"
  define f where "f = label_position labels (idxmax series)"
  define ud where "ud = map (\<lambda>l. (l, pdist f (label_position labels l))) U"
  define u where "u = label_position labels (idxmin ud)"
  have names: "map fst series = map (\<lambda>p. labels ! p) (filter (reach adj s) [0..<length labels])"
    unfolding series_def by (rule dijkstra_series)
  have Uset: "set U = {labels ! p | p. p < length labels \<and> \<not> reach adj s p}"
    unfolding U_def names by (rule unreachable_nodes_set[OF d])
  then have "labels ! p0 \<in> set U" using un by blast
  then have Une: "U \<noteq> []" by auto
  have "s \<in> set (filter (reach adj s) [0..<length labels])" using s by (simp add: reach_refl)
  then have "filter (reach adj s) [0..<length labels] \<noteq> []" by (metis empty_iff empty_set)
  then have "map fst series \<noteq> []" unfolding names by simp
  then have sne: "series \<noteq> []" by auto
  then have "first_argmax (map snd series) < length series"
    using first_argmax_less[of "map snd series"] by simp
  then have "idxmax series \<in> set (map fst series)"
    unfolding idxmax_def by (metis length_map nth_map nth_mem)
  then obtain p where p: "p < length labels" "reach adj s p" "idxmax series = labels ! p"
    unfolding names by auto
  have fp: "f = p" unfolding f_def p(3) using d p(1) by (rule label_position_of_nth)
  have udne: "ud \<noteq> []" using Une by (simp add: ud_def)
  then have "first_argmin (map snd ud) < length ud"
    using first_argmin_less[of "map snd ud"] by simp
  then have "idxmin ud \<in> set (map fst ud)"
    unfolding idxmin_def by (metis length_map nth_map nth_mem)
  moreover have "map fst ud = U" by (simp add: ud_def o_def)
  ultimately obtain q where q: "q < length labels" "\<not> reach adj s q" "idxmin ud = labels ! q"
    using Uset by auto
  have uq: "u = q" unfolding u_def q(3) using d q(1) by (rule label_position_of_nth)
  have "connect_loop spd pdist labels s adj
      = connect_loop spd pdist labels s (set_entry adj f u (Min (set (map snd ud))))"
    using Une
    by (subst connect_loop.simps)
      (simp only: Let_def series_def[symmetric] U_def[symmetric] f_def[symmetric]
        ud_def[symmetric] u_def[symmetric] length_greater_0_conv if_True not_False_eq_True)
  then show ?thesis using p q fp uq by blast
qed

lemma connect_loop_returns:
  assumes d: "distinct labels" and s: "s < length labels"
  shows "\<exists>adj'. connect_loop spd pdist labels s adj = Some adj'
           \<and> (\<forall>v<length labels. reach adj' s v)"
proof (induction "card {p. p < length labels \<and> \<not> reach adj s p}" arbitrary: adj rule: less_induct)
  case less
  show ?case
  proof (cases "\<forall>p<length labels. reach adj s p")
    case True
    then show ?thesis using connect_loop_done[OF d True] by blast
  next
    case False
    then obtain p0 where "p0 < length labels" "\<not> reach adj s p0" by blast
    from connect_loop_step[OF d s this, of spd pdist] obtain f u w where
      fu: "f < length labels" "u < length labels" "reach adj s f" "\<not> reach adj s u"
      and eq: "connect_loop spd pdist labels s adj
               = connect_loop spd pdist labels s (set_entry adj f u w)" by blast
    let ?adj = "set_entry adj f u w"
    have mono: "reach ?adj s v" if "reach adj s v" for v
      using reach_mono[OF set_entry_edges(1)] that by blast
    have ru: "reach ?adj s u"
      using reach_step[OF mono[OF fu(3)] set_entry_edges(2)] .
    have "{p. p < length labels \<and> \<not> reach ?adj s p} \<subseteq> {p. p < length labels \<and> \<not> reach adj s p}"
      using mono by blast
    moreover have "u \<in> {p. p < length labels \<and> \<not> reach adj s p}" using fu by simp
    moreover have "u \<notin> {p. p < length labels \<and> \<not> reach ?adj s p}" using ru by simp
    ultimately have "{p. p < length labels \<and> \<not> reach ?adj s p} \<subset> {p. p < length labels \<and> \<not> reach adj s p}"
      by blast
    then have "card {p. p < length labels \<and> \<not> reach ?adj s p} < card {p. p < length labels \<and> \<not> reach adj s p}"
      by (intro psubset_card_mono) auto
    from less[OF this] show ?thesis unfolding eq .
  qed
qed

text \<open>
  Claim C4. The rows of the embedding are cells, which are unique labels, and the start
  node is one of the rows. For every adjacency matrix (whatever its stored entries), every
  embedding (whatever the distances \<open>pdist\<close> between its rows) and whatever lengths
  \<open>spd\<close> the shortest paths have, the repair terminates, and in the adjacency matrix
  it returns the shortest path distance from the start node to every node is finite.
\<close>

theorem connect_graph_reaches_all:
  assumes "distinct labels" and "start_cell < length labels"
  shows "\<exists>adj'. connect_graph spd pdist labels adj start_cell = Some adj'
           \<and> (\<forall>v<length labels. dijkstra spd adj' (length labels) start_cell ! v \<noteq> None)"
proof -
  from connect_loop_returns[OF assms, of spd pdist adj] obtain adj' where
    r: "connect_loop spd pdist labels start_cell adj = Some adj'"
    and a: "\<forall>v<length labels. reach adj' start_cell v" by blast
  have "dijkstra spd adj' (length labels) start_cell ! v \<noteq> None" if "v < length labels" for v
    using that a by (simp add: dijkstra_def)
  then show ?thesis using r by (simp add: connect_graph_def)
qed

theorem connect_graph_reaches_all_witness:
  "distinct [10, 11, 12, 13, 14::nat] \<and> (0::nat) < length [10, 11, 12, 13, 14::nat]
   \<and> dijkstra graph_demo_spd graph_demo_adj 5 0 = [Some 0, Some 1, Some 2, None, None]
   \<and> (\<exists>adj'. connect_graph graph_demo_spd graph_demo_pdist [10, 11, 12, 13, 14::nat] graph_demo_adj 0 = Some adj'
          \<and> dijkstra graph_demo_spd adj' 5 0 ! 3 \<noteq> None \<and> dijkstra graph_demo_spd adj' 5 0 ! 4 \<noteq> None)"
proof -
  have h1: "distinct [10, 11, 12, 13, 14::nat]" by simp
  have h2: "(0::nat) < length [10, 11, 12, 13, 14::nat]" by simp
  have v1: "dijkstra graph_demo_spd graph_demo_adj 5 0 = [Some 0, Some 1, Some 2, None, None]"
    by code_simp
  from connect_graph_reaches_all [OF h1 h2, of graph_demo_spd graph_demo_pdist graph_demo_adj]
  obtain adj' where
    r: "connect_graph graph_demo_spd graph_demo_pdist [10, 11, 12, 13, 14::nat] graph_demo_adj 0 = Some adj'"
    and a: "\<forall>v<length [10, 11, 12, 13, 14::nat].
              dijkstra graph_demo_spd adj' (length [10, 11, 12, 13, 14::nat]) 0 ! v \<noteq> None"
    by blast
  have len: "length [10, 11, 12, 13, 14::nat] = 5" by simp
  have a': "\<forall>v<5. dijkstra graph_demo_spd adj' 5 0 ! v \<noteq> None" using a unfolding len .
  have "dijkstra graph_demo_spd adj' 5 0 ! 3 \<noteq> None" "dijkstra graph_demo_spd adj' 5 0 ! 4 \<noteq> None"
    using a'[rule_format, of 3] a'[rule_format, of 4] by simp_all
  then show ?thesis using h1 h2 v1 r by blast
qed

end
